theory Spec2Isabelle
  imports Main "HOL-Library.Word"
begin

unbundle bit_operations_syntax

section \<open>Control registers of the Secure Memory Zone (smz\_csr.h)\<close>

text \<open>
  A \<open>uint32_t\<close> and an \<open>int\<close> of the PicoRV32 firmware are both 32-bit words; an
  \<open>int\<close> is read in two's complement, so the return value \<open>-1\<close> is the word
  \<open>- 1\<close>. A CSR number is a 12-bit immediate.
\<close>

type_synonym u32 = "32 word"
type_synonym csr_addr = "12 word"

definition CSR_SMZ_BASE :: csr_addr where
  "CSR_SMZ_BASE = 0x200"

definition CSR_SMZ_SIZE :: csr_addr where
  "CSR_SMZ_SIZE = 0x201"

definition CSR_SMZ_ENABLE :: csr_addr where
  "CSR_SMZ_ENABLE = 0x202"

text \<open>
  The hardware state is the register file together with the log of every side effect the
  software has issued, in program order. A read returns the last value written.
\<close>

datatype event = CsrWrite csr_addr u32 | CsrRead csr_addr | Settle nat

record hw =
  csr :: "csr_addr \<Rightarrow> u32"
  trace :: "event list"

definition read_csr :: "csr_addr \<Rightarrow> hw \<Rightarrow> u32 \<times> hw" where
  "read_csr c s = (csr s c, s\<lparr>trace := trace s @ [CsrRead c]\<rparr>)"

definition write_csr :: "csr_addr \<Rightarrow> u32 \<Rightarrow> hw \<Rightarrow> hw" where
  "write_csr c v s = s\<lparr>csr := (csr s)(c := v), trace := trace s @ [CsrWrite c v]\<rparr>"

definition smz_read_base :: "hw \<Rightarrow> u32 \<times> hw" where
  "smz_read_base s = read_csr CSR_SMZ_BASE s"

definition smz_write_base :: "u32 \<Rightarrow> hw \<Rightarrow> hw" where
  "smz_write_base base s = write_csr CSR_SMZ_BASE base s"

definition smz_read_size :: "hw \<Rightarrow> u32 \<times> hw" where
  "smz_read_size s = read_csr CSR_SMZ_SIZE s"

definition smz_write_size :: "u32 \<Rightarrow> hw \<Rightarrow> hw" where
  "smz_write_size sz s = write_csr CSR_SMZ_SIZE sz s"

definition smz_enable :: "hw \<Rightarrow> hw" where
  "smz_enable s = write_csr CSR_SMZ_ENABLE 1 s"

definition smz_disable :: "hw \<Rightarrow> hw" where
  "smz_disable s = write_csr CSR_SMZ_ENABLE 0 s"

definition smz_is_enabled :: "hw \<Rightarrow> u32 \<times> hw" where
  "smz_is_enabled s = (let (v, s') = read_csr CSR_SMZ_ENABLE s in (v AND 1, s'))"

subsection \<open>The settle wait\<close>

text \<open>
  \<open>volatile int delay = 10; while (delay--);\<close> tests the old value of \<open>delay\<close> and
  decrements it, also on the last test. The loop returns the final value of \<open>delay\<close> and
  the number of times the (empty) body ran.
\<close>

function settle_loop :: "u32 \<Rightarrow> nat \<Rightarrow> u32 \<times> nat" where
  "settle_loop delay n = (if delay \<noteq> 0 then settle_loop (delay - 1) (Suc n) else (delay - 1, n))"
  by pat_completeness auto
termination
  by (relation "measure (\<lambda>(delay, n). unat delay)") (auto simp: measure_unat)

declare settle_loop.simps [simp del]

definition settle_wait :: "hw \<Rightarrow> hw" where
  "settle_wait s = (let (delay, n) = settle_loop 10 0 in s\<lparr>trace := trace s @ [Settle n]\<rparr>)"

subsection \<open>smz\_init and smz\_reconfigure\<close>

definition smz_init :: "u32 \<Rightarrow> u32 \<Rightarrow> u32 \<Rightarrow> hw \<Rightarrow> u32 \<times> hw" where
  "smz_init base sz enable s =
     (if (base AND 0x3) \<noteq> 0 then (- 1, s)
      else if (sz AND (sz - 1)) \<noteq> 0 \<or> sz = 0 then (- 1, s)
      else
        let s1 = smz_disable s;
            s2 = settle_wait s1;
            s3 = smz_write_base base s2;
            s4 = smz_write_size sz s3;
            s5 = (if enable \<noteq> 0 then smz_enable s4 else s4)
        in (0, s5))"

definition smz_reconfigure :: "u32 \<Rightarrow> u32 \<Rightarrow> hw \<Rightarrow> u32 \<times> hw" where
  "smz_reconfigure base sz s =
     (if (base AND 0x3) \<noteq> 0 \<or> (sz AND (sz - 1)) \<noteq> 0 \<or> sz = 0 then (- 1, s)
      else
        let (was_enabled, s0) = smz_is_enabled s;
            s1 = smz_disable s0;
            s2 = settle_wait s1;
            s3 = smz_write_base base s2;
            s4 = smz_write_size sz s3;
            s5 = (if was_enabled \<noteq> 0 then smz_enable s4 else s4)
        in (0, s5))"

subsection \<open>smz\_get\_config and its output pointers\<close>

text \<open>
  The three parameters are C pointers: \<open>NULL\<close> or the address of a 32-bit cell of data
  memory. A store through \<open>NULL\<close> is a fault, so that every dereference the function
  could make shows in its result.
\<close>

datatype ptr = NULL | Ptr nat

datatype fault = NullDeref

type_synonym dmem = "nat \<Rightarrow> u32"

definition store_ptr :: "ptr \<Rightarrow> u32 \<Rightarrow> dmem \<Rightarrow> fault + dmem" where
  "store_ptr p v m = (case p of NULL \<Rightarrow> Inl NullDeref | Ptr a \<Rightarrow> Inr (m(a := v)))"

definition smz_get_config :: "ptr \<Rightarrow> ptr \<Rightarrow> ptr \<Rightarrow> hw \<Rightarrow> dmem \<Rightarrow> fault + (hw \<times> dmem)" where
  "smz_get_config base sz enable s m =
     (case (if base \<noteq> NULL
            then (let (v, s') = smz_read_base s in map_sum id (Pair s') (store_ptr base v m))
            else Inr (s, m)) of
        Inl f \<Rightarrow> Inl f
      | Inr (s1, m1) \<Rightarrow>
     (case (if sz \<noteq> NULL
            then (let (v, s') = smz_read_size s1 in map_sum id (Pair s') (store_ptr sz v m1))
            else Inr (s1, m1)) of
        Inl f \<Rightarrow> Inl f
      | Inr (s2, m2) \<Rightarrow>
          (if enable \<noteq> NULL
           then (let (v, s') = smz_is_enabled s2 in map_sum id (Pair s') (store_ptr enable v m2))
           else Inr (s2, m2))))"

text \<open>The spec's own words for a valid geometry, to compare with the code's bit tests.\<close>

definition word_aligned :: "u32 \<Rightarrow> bool" where
  "word_aligned base = (unat base mod 4 = 0)"

definition power_of_two :: "u32 \<Rightarrow> bool" where
  "power_of_two sz = (\<exists>k \<in> {0..<32}. sz = 2 ^ k)"

definition hw_reset :: hw where
  "hw_reset = \<lparr>csr = (\<lambda>c. 0), trace = []\<rparr>"


definition hw_demo :: hw where
  "hw_demo = \<lparr>csr = (\<lambda>c. if c = CSR_SMZ_BASE then 0x20000 else if c = CSR_SMZ_SIZE then 0x400
                         else if c = CSR_SMZ_ENABLE then 3 else 0),
              trace = []\<rparr>"

definition dmem_zero :: dmem where
  "dmem_zero = (\<lambda>a. 0)"

section \<open>The verification harness (firmware/smz\_test.c)\<close>

definition SECURE_ADDR :: u32 where
  "SECURE_ADDR = 0x10000"

definition SECURE_SIZE :: u32 where
  "SECURE_SIZE = 0x1000"

text \<open>
  Console output is the list of calls to the printing primitives of \<open>firmware.h\<close>:
  \<open>print_str\<close>, \<open>print_hex\<close> with its digit count, and \<open>print_dec\<close>.
\<close>

datatype out = Str string | Hex u32 nat | Dec int

text \<open>
  The secure window is reached by ordinary loads and stores; what the engine does to a
  word on its way into RAM and back is outside the software, so it is a parameter: RAM
  holds \<open>on_store a v\<close> after a store of \<open>v\<close> at address \<open>a\<close>, and a load at \<open>a\<close>
  returns \<open>on_load a\<close> of the word RAM holds.
\<close>

record engine =
  on_store :: "u32 \<Rightarrow> u32 \<Rightarrow> u32"
  on_load :: "u32 \<Rightarrow> u32 \<Rightarrow> u32"

type_synonym ram = "u32 \<Rightarrow> u32"

definition mem_store :: "engine \<Rightarrow> u32 \<Rightarrow> u32 \<Rightarrow> ram \<Rightarrow> ram" where
  "mem_store eng a v r = r(a := on_store eng a v)"

definition mem_load :: "engine \<Rightarrow> u32 \<Rightarrow> ram \<Rightarrow> u32" where
  "mem_load eng a r = on_load eng a (r a)"

definition identity_engine :: engine where
  "identity_engine = \<lparr>on_store = (\<lambda>a v. v), on_load = (\<lambda>a v. v)\<rparr>"

definition ram_zero :: ram where
  "ram_zero = (\<lambda>a. 0)"

text \<open>\<open>secure_mem[i]\<close> for \<open>volatile uint32_t *secure_mem = SECURE_ADDR\<close>.\<close>

definition secure_mem :: "nat \<Rightarrow> u32" where
  "secure_mem i = SECURE_ADDR + 4 * of_nat i"

text \<open>
  Step 1 writes the three registers directly and reads them back for the printout.
\<close>

definition step1_configure :: "hw \<Rightarrow> hw \<times> out list" where
  "step1_configure s =
     (let s1 = write_csr CSR_SMZ_BASE SECURE_ADDR s;
          s2 = write_csr CSR_SMZ_SIZE SECURE_SIZE s1;
          s3 = write_csr CSR_SMZ_ENABLE 1 s2;
          (csr_base, s4) = read_csr CSR_SMZ_BASE s3;
          (csr_size, s5) = read_csr CSR_SMZ_SIZE s4;
          (csr_en, s6) = read_csr CSR_SMZ_ENABLE s5
      in (s6, [Str ''STEP 1: Configure SMZ CSRs\<newline>'',
               Str ''  Base: 0x'', Hex csr_base 8,
               Str ''  Size: 0x'', Hex csr_size 8,
               Str ''  Enable: '', Dec (uint csr_en),
               Str ''\<newline>\<newline>'']))"

text \<open>
  Step 2. The loop counter \<open>int i\<close> runs over 0..196 only, so it is a natural number
  here; the word stored is the \<open>uint32_t\<close> the right-hand side converts to. The
  \<open>int\<close> shift \<open>0xAA << 24\<close> exceeds \<open>INT_MAX\<close>; the compiler for this target keeps
  the low 32 bits, which is what the shift on a 32-bit word does.
\<close>

definition pattern_word :: "nat \<Rightarrow> u32" where
  "pattern_word i =
     (((push_bit 24 0xAA OR push_bit 16 0xBB) OR push_bit 8 (of_nat i AND 0xFF))
        OR (of_nat i AND 0xFF))"

function gen_loop :: "nat \<Rightarrow> u32 list \<Rightarrow> u32 list" where
  "gen_loop i test_image =
     (if i < 196 then gen_loop (i + 1) (test_image[i := pattern_word i]) else test_image)"
  by pat_completeness auto
termination
  by (relation "measure (\<lambda>(i, test_image). 196 - i)") auto

declare gen_loop.simps [simp del]

text \<open>Step 3: \<open>secure_mem[i] = test_image[i]\<close>.\<close>

function write_loop :: "engine \<Rightarrow> nat \<Rightarrow> u32 list \<Rightarrow> ram \<Rightarrow> ram" where
  "write_loop eng i test_image r =
     (if i < 196 then write_loop eng (i + 1) test_image (mem_store eng (secure_mem i) (test_image ! i) r)
      else r)"
  by pat_completeness auto
termination
  by (relation "measure (\<lambda>(eng, i, test_image, r). 196 - i)") auto

declare write_loop.simps [simp del]

text \<open>Step 4: \<open>read_image[i] = secure_mem[i]\<close>.\<close>

function read_loop :: "engine \<Rightarrow> nat \<Rightarrow> ram \<Rightarrow> u32 list \<Rightarrow> u32 list" where
  "read_loop eng i r read_image =
     (if i < 196 then read_loop eng (i + 1) r (read_image[i := mem_load eng (secure_mem i) r])
      else read_image)"
  by pat_completeness auto
termination
  by (relation "measure (\<lambda>(eng, i, r, read_image). 196 - i)") auto

declare read_loop.simps [simp del]

text \<open>
  Step 5: the comparison, with \<open>int matches\<close> and \<open>int first_mismatch\<close>, the latter
  \<open>-1\<close> until the first differing word. Neither can leave the range \<open>-1..196\<close>.
\<close>

function cmp_loop :: "nat \<Rightarrow> u32 list \<Rightarrow> u32 list \<Rightarrow> int \<Rightarrow> int \<Rightarrow> int \<times> int" where
  "cmp_loop i read_image test_image matches first_mismatch =
     (if i < 196 then
        (if read_image ! i = test_image ! i
         then cmp_loop (i + 1) read_image test_image (matches + 1) first_mismatch
         else if first_mismatch = - 1
         then cmp_loop (i + 1) read_image test_image matches (int i)
         else cmp_loop (i + 1) read_image test_image matches first_mismatch)
      else (matches, first_mismatch))"
  by pat_completeness auto
termination
  by (relation "measure (\<lambda>(i, read_image, test_image, matches, first_mismatch). 196 - i)") auto

declare cmp_loop.simps [simp del]

text \<open>
  The two verdict lines start with a check mark and a ballot cross, three UTF-8 bytes
  each.
\<close>

definition msg_pass :: string where
  "msg_pass = CHR 0xE2 # CHR 0x9C # CHR 0x93 # '' PASS: ALL DATA MATCHED!\<newline>''"

definition msg_fail :: string where
  "msg_fail = CHR 0xE2 # CHR 0x9C # CHR 0x97 # '' FAIL: Mismatch detected\<newline>''"

definition report :: "int \<Rightarrow> int \<Rightarrow> u32 list \<Rightarrow> u32 list \<Rightarrow> out list" where
  "report matches first_mismatch test_image read_image =
     [Str ''  Matching words: '', Dec matches, Str '' / 196\<newline>\<newline>''] @
     (if matches = 196 then
        [Str msg_pass,
         Str ''  SMZ encrypted data on write and decrypted on read correctly.\<newline>'',
         Str ''  Pipeline verification SUCCESSFUL.\<newline>'']
      else
        [Str msg_fail, Str ''  Mismatches: '', Dec (196 - matches), Str ''\<newline>''] @
        (if first_mismatch \<noteq> - 1 then
           [Str ''  First mismatch at word '', Dec first_mismatch, Str '':\<newline>'',
            Str ''    Expected: 0x'', Hex (test_image ! nat first_mismatch) 8, Str ''\<newline>'',
            Str ''    Got: 0x'', Hex (read_image ! nat first_mismatch) 8, Str ''\<newline>'']
         else []))"

text \<open>
  The whole of \<open>smz_test\<close>. The two local arrays are uninitialised when the function
  starts, so their first contents \<open>img0\<close> and \<open>rd0\<close> (196 words each) are arguments.
  The result keeps the final values of the locals next to the console output.
\<close>

record run =
  run_hw :: hw
  run_ram :: ram
  run_test_image :: "u32 list"
  run_read_image :: "u32 list"
  run_matches :: int
  run_first_mismatch :: int
  run_out :: "out list"

definition smz_test :: "engine \<Rightarrow> hw \<Rightarrow> ram \<Rightarrow> u32 list \<Rightarrow> u32 list \<Rightarrow> run" where
  "smz_test eng s r img0 rd0 =
     (let o0 = [Str ''\<newline>'',
                Str ''====================================\<newline>'',
                Str ''SMZ Pipeline Test\<newline>'',
                Str ''28x28 Image Encryption Verification\<newline>'',
                Str ''====================================\<newline>\<newline>''];
          (s', o1) = step1_configure s;
          test_image = gen_loop 0 img0;
          o2 = [Str ''STEP 2: Generate 28x28 Test Image (784 bytes)\<newline>'',
                Str ''  Generated pattern. First word: 0x'', Hex (test_image ! 0) 8,
                Str ''\<newline>\<newline>''];
          r' = write_loop eng 0 test_image r;
          o3 = [Str ''STEP 3: Write Image to Secure Memory (encrypted on write)\<newline>'',
                Str ''  Wrote 196 words to 0x'', Hex SECURE_ADDR 8,
                Str '' (data gets encrypted by SMZ)\<newline>\<newline>''];
          read_image = read_loop eng 0 r' rd0;
          o4 = [Str ''STEP 4: Read Back from Secure Memory (decrypted on read)\<newline>'',
                Str ''  Read 196 words from secure memory\<newline>\<newline>''];
          (matches, first_mismatch) = cmp_loop 0 read_image test_image 0 (- 1);
          o5 = [Str ''STEP 5: Verify Data Integrity\<newline>'']
               @ report matches first_mismatch test_image read_image
               @ [Str ''\<newline>====================================\<newline>'',
                  Str ''Test Complete\<newline>'',
                  Str ''====================================\<newline>\<newline>'']
      in \<lparr>run_hw = s', run_ram = r', run_test_image = test_image, run_read_image = read_image,
          run_matches = matches, run_first_mismatch = first_mismatch,
          run_out = o0 @ o1 @ o2 @ o3 @ o4 @ o5\<rparr>)"

text \<open>Concrete inputs for the closed instances below.\<close>

definition junk :: "u32 list" where
  "junk = replicate 196 0"

definition flip_engine :: engine where
  "flip_engine = \<lparr>on_store = (\<lambda>a v. v),
                   on_load = (\<lambda>a v. if a = secure_mem 5 then v XOR 1 else v)\<rparr>"

section \<open>Validation: the bit tests against alignment and powers of two\<close>

lemma and21: "(2 * q) AND (2 * r + 1) = 2 * (q AND r)" for q r :: nat
  by (simp add: and_rec [of "2 * q"])

lemma and12: "(2 * q + 1) AND (2 * q) = 2 * q" for q :: nat
  by (simp add: and_rec [of "Suc (2 * q)"])

lemma nat_pow2_iff: "0 < n \<Longrightarrow> (n AND (n - 1) = 0) \<longleftrightarrow> (\<exists>k. n = 2 ^ k)" for n :: nat
proof (induction n rule: less_induct)
  case (less n)
  show ?case
  proof (cases "even n")
    case True
    then obtain q where q: "n = 2 * q" by (elim evenE)
    with less.prems have qpos: "0 < q" by simp
    have "n - 1 = 2 * (q - 1) + 1" using qpos q by simp
    then have a: "n AND (n - 1) = 2 * (q AND (q - 1))"
      using and21 [of q "q - 1"] q by simp
    have IH: "(q AND (q - 1) = 0) \<longleftrightarrow> (\<exists>k. q = 2 ^ k)"
      using less.IH [of q] qpos q by simp
    have "(\<exists>k. n = 2 ^ k) \<longleftrightarrow> (\<exists>k. q = 2 ^ k)"
    proof
      assume "\<exists>k. n = 2 ^ k"
      then obtain k where k: "n = 2 ^ k" by blast
      with q qpos have "k \<noteq> 0" by (cases k) auto
      then obtain j where "k = Suc j" by (cases k) auto
      with k q have "q = 2 ^ j" by simp
      then show "\<exists>k. q = 2 ^ k" by blast
    next
      assume "\<exists>k. q = 2 ^ k"
      then obtain k where "q = 2 ^ k" by blast
      with q have "n = 2 ^ Suc k" by simp
      then show "\<exists>k. n = 2 ^ k" by blast
    qed
    with a IH show ?thesis by simp
  next
    case False
    then obtain q where q: "n = 2 * q + 1" by (elim oddE)
    then have a: "n AND (n - 1) = 2 * q" using and12 [of q] by simp
    have "(\<exists>k. n = 2 ^ k) \<longleftrightarrow> q = 0"
    proof
      assume "\<exists>k. n = 2 ^ k"
      then obtain k where k: "n = 2 ^ k" by blast
      with False have "k = 0" by (cases k) auto
      with k q show "q = 0" by simp
    next
      assume "q = 0"
      with q have "n = 2 ^ 0" by simp
      then show "\<exists>k. n = 2 ^ k" by blast
    qed
    with a show ?thesis by simp
  qed
qed

lemma aligned_iff: "(base AND 0x3) = 0 \<longleftrightarrow> word_aligned base" for base :: u32
proof -
  have m: "(3::u32) = mask 2" by (simp add: mask_eq_exp_minus_1)
  have "base AND 3 = base mod 4"
    using word_mod_2p_is_mask [of 2 base] m by simp
  then have "(base AND 3 = 0) \<longleftrightarrow> unat (base mod 4) = 0"
    by (simp add: unat_eq_0)
  then show ?thesis by (simp add: word_aligned_def unat_mod)
qed

lemma unat_2p32: "k < 32 \<Longrightarrow> unat ((2::u32) ^ k) = 2 ^ k"
proof -
  assume "k < 32"
  then have "(2::u32) ^ k \<noteq> 0" by (simp add: exp_eq_zero_iff)
  then have "0 < (2::u32) ^ k" by (simp add: word_gt_0)
  then have "uint ((2::u32) ^ k) = 2 ^ k" by (rule uint_2p)
  then have "nat (uint ((2::u32) ^ k)) = nat (2 ^ k)" by simp
  then show ?thesis by (simp add: nat_power_eq)
qed

lemma pow2_unat: "power_of_two sz \<longleftrightarrow> (\<exists>k. unat sz = 2 ^ k)"
proof
  assume "power_of_two sz"
  then obtain k where "k < 32" "sz = 2 ^ k" by (auto simp: power_of_two_def)
  then have "unat sz = 2 ^ k" by (simp add: unat_2p32)
  then show "\<exists>k. unat sz = 2 ^ k" by blast
next
  assume "\<exists>k. unat sz = 2 ^ k"
  then obtain k where k: "unat sz = 2 ^ k" by blast
  have "unat sz < 2 ^ 32" using unsigned_less [of sz] by simp
  with k have "(2::nat) ^ k < 2 ^ 32" by simp
  then have k32: "k < 32" by (rule nat_power_less_imp_less [rotated]) simp
  have "sz = word_of_nat (unat sz)" by simp
  also have "\<dots> = 2 ^ k" unfolding k by simp
  finally show "power_of_two sz" using k32 by (auto simp: power_of_two_def)
qed

lemma pow2_test_iff: "((sz AND (sz - 1)) = 0 \<and> sz \<noteq> 0) \<longleftrightarrow> power_of_two sz" for sz :: u32
proof (cases "sz = 0")
  case True
  have "\<not> power_of_two 0"
    by (auto simp: power_of_two_def exp_eq_zero_iff)
  with True show ?thesis by simp
next
  case False
  then have pos: "0 < unat sz" by (simp add: unat_gt_0)
  have "(sz AND (sz - 1)) = 0 \<longleftrightarrow> unat (sz AND (sz - 1)) = 0"
    by (simp add: unat_eq_0)
  also have "\<dots> \<longleftrightarrow> (unat sz AND (unat sz - 1)) = 0"
    using False by (simp add: unsigned_and_eq unat_minus_one)
  also have "\<dots> \<longleftrightarrow> (\<exists>k. unat sz = 2 ^ k)"
    by (rule nat_pow2_iff [OF pos])
  finally show ?thesis using False by (simp add: pow2_unat)
qed

section \<open>What smz\_init and smz\_reconfigure do\<close>

lemma settle_loop_10: "settle_loop 10 0 = (- 1, 10)"
  by (simp add: settle_loop.simps)

lemma settle_wait_eq: "settle_wait s = s\<lparr>trace := trace s @ [Settle 10]\<rparr>"
  by (simp add: settle_wait_def settle_loop_10)

lemmas csr_defs = CSR_SMZ_BASE_def CSR_SMZ_SIZE_def CSR_SMZ_ENABLE_def

lemmas smz_defs = smz_disable_def smz_enable_def smz_write_base_def smz_write_size_def
  smz_read_base_def smz_read_size_def smz_is_enabled_def write_csr_def read_csr_def
  settle_wait_eq

lemma smz_init_invalid:
  "\<not> word_aligned base \<or> sz = 0 \<or> \<not> power_of_two sz \<Longrightarrow> smz_init base sz enable s = (- 1, s)"
  using aligned_iff [of base] pow2_test_iff [of sz] by (auto simp: smz_init_def)

lemma smz_reconfigure_invalid:
  "\<not> word_aligned base \<or> sz = 0 \<or> \<not> power_of_two sz \<Longrightarrow> smz_reconfigure base sz s = (- 1, s)"
  using aligned_iff [of base] pow2_test_iff [of sz] by (auto simp: smz_reconfigure_def)

lemma smz_init_valid:
  "word_aligned base \<Longrightarrow> power_of_two sz \<Longrightarrow>
   smz_init base sz enable s =
     (0, s\<lparr>csr := (csr s)(CSR_SMZ_ENABLE := (if enable \<noteq> 0 then 1 else 0),
                          CSR_SMZ_BASE := base, CSR_SMZ_SIZE := sz),
            trace := trace s @ [CsrWrite CSR_SMZ_ENABLE 0, Settle 10, CsrWrite CSR_SMZ_BASE base,
                                CsrWrite CSR_SMZ_SIZE sz]
                             @ (if enable \<noteq> 0 then [CsrWrite CSR_SMZ_ENABLE 1] else [])\<rparr>)"
  using aligned_iff [of base] pow2_test_iff [of sz]
  by (auto simp: smz_init_def smz_defs csr_defs Let_def fun_eq_iff)

lemma smz_reconfigure_valid:
  "word_aligned base \<Longrightarrow> power_of_two sz \<Longrightarrow>
   smz_reconfigure base sz s =
     (0, s\<lparr>csr := (csr s)(CSR_SMZ_ENABLE := (if csr s CSR_SMZ_ENABLE AND 1 \<noteq> 0 then 1 else 0),
                          CSR_SMZ_BASE := base, CSR_SMZ_SIZE := sz),
            trace := trace s @ [CsrRead CSR_SMZ_ENABLE, CsrWrite CSR_SMZ_ENABLE 0, Settle 10,
                                CsrWrite CSR_SMZ_BASE base, CsrWrite CSR_SMZ_SIZE sz]
                             @ (if csr s CSR_SMZ_ENABLE AND 1 \<noteq> 0 then [CsrWrite CSR_SMZ_ENABLE 1] else [])\<rparr>)"
  using aligned_iff [of base] pow2_test_iff [of sz]
  by (auto simp: smz_reconfigure_def smz_defs csr_defs Let_def fun_eq_iff)

lemma and1_cases: "w AND 1 = 0 \<or> w AND 1 = 1" for w :: u32
  by (cases "even w") (simp_all add: and_one_eq mod_2_eq_odd)

section \<open>The loops of the harness\<close>

lemma pattern_word_eq:
  "pattern_word i = 0xAABB0000 OR (push_bit 8 (of_nat i AND 0xFF) OR (of_nat i AND 0xFF))"
  by (simp add: pattern_word_def or.assoc)

lemma gen_loop_inv:
  "i \<le> 196 \<Longrightarrow> length img = 196 \<Longrightarrow> gen_loop i img = take i img @ map pattern_word [i..<196]"
proof (induction i img rule: gen_loop.induct)
  case (1 i img)
  show ?case
  proof (cases "i < 196")
    case True
    then have "gen_loop i img = gen_loop (i + 1) (img[i := pattern_word i])"
      by (subst gen_loop.simps) simp
    also have "\<dots> = take (i + 1) (img[i := pattern_word i]) @ map pattern_word [i + 1..<196]"
      using True "1.prems" by (intro "1.IH") simp_all
    also have "take (i + 1) (img[i := pattern_word i]) = take i img @ [pattern_word i]"
      using True "1.prems" by (simp add: take_Suc_conv_app_nth)
    finally show ?thesis using True by (simp add: upt_conv_Cons)
  next
    case False
    with "1.prems" have "i = 196" by simp
    then show ?thesis using "1.prems" by (subst gen_loop.simps) simp
  qed
qed

lemma gen_loop_0: "length img = 196 \<Longrightarrow> gen_loop 0 img = map pattern_word [0..<196]"
  using gen_loop_inv [of 0 img] by simp

lemma read_loop_inv:
  "i \<le> 196 \<Longrightarrow> length rd = 196 \<Longrightarrow>
   read_loop eng i r rd = take i rd @ map (\<lambda>j. mem_load eng (secure_mem j) r) [i..<196]"
proof (induction eng i r rd rule: read_loop.induct)
  case (1 eng i r rd)
  show ?case
  proof (cases "i < 196")
    case True
    let ?v = "mem_load eng (secure_mem i) r"
    have "read_loop eng i r rd = read_loop eng (i + 1) r (rd[i := ?v])"
      using True by (subst read_loop.simps) simp
    also have "\<dots> = take (i + 1) (rd[i := ?v]) @ map (\<lambda>j. mem_load eng (secure_mem j) r) [i + 1..<196]"
      using True "1.prems" by (intro "1.IH") simp_all
    also have "take (i + 1) (rd[i := ?v]) = take i rd @ [?v]"
      using True "1.prems" by (simp add: take_Suc_conv_app_nth)
    finally show ?thesis using True by (simp add: upt_conv_Cons)
  next
    case False
    with "1.prems" have "i = 196" by simp
    then show ?thesis using "1.prems" by (subst read_loop.simps) simp
  qed
qed

lemma len32: "LENGTH(32) = 32" by simp

lemma secure_mem_inj: "i < 196 \<Longrightarrow> j < 196 \<Longrightarrow> secure_mem i = secure_mem j \<Longrightarrow> i = j"
proof -
  assume i: "i < 196" and j: "j < 196" and e: "secure_mem i = secure_mem j"
  from e have "(word_of_nat (4 * i) :: u32) = word_of_nat (4 * j)"
    by (simp add: secure_mem_def)
  then have "take_bit 32 (4 * i) = take_bit 32 (4 * j)"
    by (simp only: word_of_nat_eq_iff len32 [symmetric])
  moreover have "take_bit 32 (4 * i) = 4 * i" using i by (intro take_bit_nat_eq_self) simp
  moreover have "take_bit 32 (4 * j) = 4 * j" using j by (intro take_bit_nat_eq_self) simp
  ultimately show "i = j" by simp
qed

lemma write_loop_inv:
  "j < 196 \<Longrightarrow>
   write_loop eng i img r (secure_mem j) =
     (if i \<le> j then on_store eng (secure_mem j) (img ! j) else r (secure_mem j))"
proof (induction eng i img r rule: write_loop.induct)
  case (1 eng i img r)
  show ?case
  proof (cases "i < 196")
    case True
    let ?r = "mem_store eng (secure_mem i) (img ! i) r"
    have "write_loop eng i img r (secure_mem j) = write_loop eng (i + 1) img ?r (secure_mem j)"
      using True by (subst write_loop.simps) simp
    also have "\<dots> = (if i + 1 \<le> j then on_store eng (secure_mem j) (img ! j) else ?r (secure_mem j))"
      using True "1.prems" by (intro "1.IH") simp_all
    finally have step: "write_loop eng i img r (secure_mem j) =
        (if i + 1 \<le> j then on_store eng (secure_mem j) (img ! j) else ?r (secure_mem j))" .
    show ?thesis
    proof (cases "i = j")
      case True
      with step show ?thesis by (simp add: mem_store_def)
    next
      case False
      with True "1.prems" have "secure_mem j \<noteq> secure_mem i"
        using secure_mem_inj [of j i] by blast
      with step False show ?thesis by (auto simp: mem_store_def)
    qed
  next
    case False
    then show ?thesis using "1.prems" by (subst write_loop.simps) simp
  qed
qed

lemma cmp_loop_all_equal:
  "i \<le> 196 \<Longrightarrow> \<forall>j. i \<le> j \<and> j < 196 \<longrightarrow> rd ! j = img ! j \<Longrightarrow>
   cmp_loop i rd img m fm = (m + int (196 - i), fm)"
proof (induction i rd img m fm rule: cmp_loop.induct)
  case (1 i rd img m fm)
  show ?case
  proof (cases "i < 196")
    case True
    with "1.prems" have eq: "rd ! i = img ! i" by simp
    have "cmp_loop i rd img m fm = cmp_loop (i + 1) rd img (m + 1) fm"
      using True eq by (subst cmp_loop.simps) simp
    also have "\<dots> = (m + 1 + int (196 - (i + 1)), fm)"
      using True eq "1.prems" by (intro "1.IH"(1)) simp_all
    finally show ?thesis using True by (simp add: of_nat_diff)
  next
    case False
    with "1.prems" have "i = 196" by simp
    then show ?thesis by (subst cmp_loop.simps) simp
  qed
qed

lemma cmp_loop_one_mismatch:
  "i \<le> k \<Longrightarrow> k < 196 \<Longrightarrow> rd ! k \<noteq> img ! k \<Longrightarrow>
   \<forall>j. i \<le> j \<and> j < 196 \<and> j \<noteq> k \<longrightarrow> rd ! j = img ! j \<Longrightarrow>
   cmp_loop i rd img m (- 1) = (m + int (196 - i) - 1, int k)"
proof (induction "k - i" arbitrary: i m)
  case 0
  then have ik: "i = k" by simp
  have "cmp_loop k rd img m (- 1) = cmp_loop (k + 1) rd img m (int k)"
    using "0.prems" by (subst cmp_loop.simps) simp
  also have "\<dots> = (m + int (196 - (k + 1)), int k)"
    using "0.prems" by (intro cmp_loop_all_equal) auto
  finally show ?case using ik "0.prems" by (simp add: of_nat_diff)
next
  case (Suc d)
  then have lt: "i < k" and i196: "i < 196" by simp_all
  with Suc.prems have eq: "rd ! i = img ! i" by simp
  have "cmp_loop i rd img m (- 1) = cmp_loop (i + 1) rd img (m + 1) (- 1)"
    using i196 eq by (subst cmp_loop.simps) simp
  also have "\<dots> = (m + 1 + int (196 - (i + 1)) - 1, int k)"
    using Suc.hyps(2) lt Suc.prems by (intro Suc.hyps(1)) auto
  finally show ?case using i196 by (simp add: of_nat_diff)
qed

lemma length_junk: "length junk = 196"
  by (simp add: junk_def)

lemma power_of_two_4096: "power_of_two 0x1000"
  unfolding power_of_two_def by (rule bexI [of _ 12]) simp_all

lemma not_power_of_two_3: "\<not> power_of_two 3"
  using pow2_test_iff [of 3] by simp

lemma word_aligned_64k: "word_aligned 0x10000"
  by (simp add: word_aligned_def)

lemma not_word_aligned_2: "\<not> word_aligned 2"
  by (simp add: word_aligned_def)

lemma smz_test_images:
  assumes "length img0 = 196" and "length rd0 = 196"
  shows "run_test_image (smz_test eng s r img0 rd0) = map pattern_word [0..<196]"
    and "run_read_image (smz_test eng s r img0 rd0) =
           map (\<lambda>j. on_load eng (secure_mem j) (on_store eng (secure_mem j) (pattern_word j))) [0..<196]"
proof -
  show "run_test_image (smz_test eng s r img0 rd0) = map pattern_word [0..<196]"
    by (simp add: smz_test_def Let_def gen_loop_0 [OF assms(1)] split: prod.splits)
  have "run_read_image (smz_test eng s r img0 rd0) =
          read_loop eng 0 (write_loop eng 0 (map pattern_word [0..<196]) r) rd0"
    by (simp add: smz_test_def Let_def gen_loop_0 [OF assms(1)] split: prod.splits)
  also have "\<dots> = map (\<lambda>j. mem_load eng (secure_mem j) (write_loop eng 0 (map pattern_word [0..<196]) r)) [0..<196]"
    using read_loop_inv [of 0 rd0 eng] assms(2) by simp
  also have "\<dots> = map (\<lambda>j. on_load eng (secure_mem j) (on_store eng (secure_mem j) (pattern_word j))) [0..<196]"
    by (rule map_cong) (simp_all add: mem_load_def write_loop_inv)
  finally show "run_read_image (smz_test eng s r img0 rd0) =
           map (\<lambda>j. on_load eng (secure_mem j) (on_store eng (secure_mem j) (pattern_word j))) [0..<196]" .
qed

lemma smz_test_compare:
  "(run_matches (smz_test eng s r img0 rd0), run_first_mismatch (smz_test eng s r img0 rd0)) =
     cmp_loop 0 (run_read_image (smz_test eng s r img0 rd0)) (run_test_image (smz_test eng s r img0 rd0)) 0 (- 1)"
  by (simp add: smz_test_def Let_def split: prod.splits)

lemma smz_test_out:
  "\<exists>pre post. run_out (smz_test eng s r img0 rd0) =
     pre @ report (run_matches (smz_test eng s r img0 rd0)) (run_first_mismatch (smz_test eng s r img0 rd0))
                  (run_test_image (smz_test eng s r img0 rd0)) (run_read_image (smz_test eng s r img0 rd0)) @ post"
proof -
  obtain s' o1 where c: "step1_configure s = (s', o1)" by (cases "step1_configure s")
  obtain m f where k: "cmp_loop 0 (read_loop eng 0 (write_loop eng 0 (gen_loop 0 img0) r) rd0) (gen_loop 0 img0) 0 (- 1) = (m, f)"
    by (cases "cmp_loop 0 (read_loop eng 0 (write_loop eng 0 (gen_loop 0 img0) r) rd0) (gen_loop 0 img0) 0 (- 1)")
  show ?thesis
    unfolding smz_test_def Let_def c k prod.case run.simps
    by (metis append.assoc)
qed

lemma smz_test_hw: "run_hw (smz_test eng s r img0 rd0) = fst (step1_configure s)"
  by (simp add: smz_test_def Let_def split: prod.splits)


lemma step1_configure_hw:
  "fst (step1_configure s) =
     s\<lparr>csr := (csr s)(CSR_SMZ_BASE := SECURE_ADDR, CSR_SMZ_SIZE := SECURE_SIZE, CSR_SMZ_ENABLE := 1),
       trace := trace s @ [CsrWrite CSR_SMZ_BASE SECURE_ADDR, CsrWrite CSR_SMZ_SIZE SECURE_SIZE,
                           CsrWrite CSR_SMZ_ENABLE 1, CsrRead CSR_SMZ_BASE, CsrRead CSR_SMZ_SIZE,
                           CsrRead CSR_SMZ_ENABLE]\<rparr>"
  by (simp add: step1_configure_def write_csr_def read_csr_def Let_def)

lemma secure_geometry_valid: "word_aligned SECURE_ADDR" "power_of_two SECURE_SIZE"
  by (simp_all add: SECURE_ADDR_def SECURE_SIZE_def word_aligned_64k power_of_two_4096)

lemma flip_read_image:
  "run_read_image (smz_test flip_engine hw_reset ram_zero junk junk) =
     map (\<lambda>j. if j = 5 then pattern_word j XOR 1 else pattern_word j) [0..<196]"
proof -
  have "run_read_image (smz_test flip_engine hw_reset ram_zero junk junk) =
     map (\<lambda>j. if secure_mem j = secure_mem 5 then pattern_word j XOR 1 else pattern_word j) [0..<196]"
    by (simp add: smz_test_images [OF length_junk length_junk] flip_engine_def)
  also have "\<dots> = map (\<lambda>j. if j = 5 then pattern_word j XOR 1 else pattern_word j) [0..<196]"
    by (rule map_cong) (use secure_mem_inj [of _ 5] in auto)
  finally show ?thesis .
qed

section \<open>What a run of the harness leaves behind\<close>












section \<open>The claims\<close>

text \<open>
  Claim C1. A base that is not a multiple of 4, or a size that is 0 or not a power of two,
  makes both smz_init and smz_reconfigure return -1 and leave the hardware state as it
  was: no register is written (or read), so BASE, SIZE and ENABLE keep their values.
\<close>

theorem smz_rejects_invalid_geometry:
  "\<not> word_aligned base \<or> sz = 0 \<or> \<not> power_of_two sz \<Longrightarrow>
   smz_init base sz enable s = (- 1, s) \<and> smz_reconfigure base sz s = (- 1, s)"
  by (simp add: smz_init_invalid smz_reconfigure_invalid)

theorem smz_rejects_invalid_geometry_witness:
  "smz_init 2 0x1000 1 hw_demo = (- 1, hw_demo) \<and> smz_reconfigure 2 0x1000 hw_demo = (- 1, hw_demo)"
proof -
  have h: "\<not> word_aligned 2 \<or> (0x1000::u32) = 0 \<or> \<not> power_of_two 0x1000"
    by (simp add: not_word_aligned_2)
  show ?thesis using smz_rejects_invalid_geometry [OF h, of 1 hw_demo] by simp
qed

text \<open>
  Claim C2. For a base that is a multiple of 4 and a size that is a positive power of two,
  smz_init returns 0, and smz_get_config called next with three distinct non-null pointers
  stores exactly that base, that size and the truth value of enable (1 if enable was
  requested, 0 if not).
\<close>

theorem smz_init_get_config_roundtrip:
  assumes "word_aligned base" and "0 < sz" and "power_of_two sz" and "distinct [pb, ps, pe]"
  shows "\<exists>s1 s2 m'. smz_init base sz enable s = (0, s1) \<and>
           smz_get_config (Ptr pb) (Ptr ps) (Ptr pe) s1 m = Inr (s2, m') \<and>
           m' pb = base \<and> m' ps = sz \<and> m' pe = (if enable \<noteq> 0 then 1 else 0)"
  using assms(4)
  by (simp add: smz_init_valid [OF assms(1,3)] smz_get_config_def store_ptr_def smz_defs csr_defs)

theorem smz_init_get_config_roundtrip_witness:
  "\<exists>s1 s2 m'. smz_init 0x10000 0x1000 1 hw_demo = (0, s1) \<and>
       smz_get_config (Ptr 100) (Ptr 104) (Ptr 108) s1 dmem_zero = Inr (s2, m') \<and>
       m' 100 = 0x10000 \<and> m' 104 = 0x1000 \<and> m' 108 = 1"
proof -
  have p: "(0::u32) < 0x1000" by simp
  have d: "distinct [100::nat, 104, 108]" by simp
  show ?thesis
    using smz_init_get_config_roundtrip [OF word_aligned_64k p power_of_two_4096 d, of 1 hw_demo dmem_zero] by simp
qed

text \<open>
  Claim C3. For a valid new base and size and any value of the ENABLE register,
  smz_reconfigure returns 0 and smz_is_enabled reads afterwards what it read before:
  enabled stays enabled, disabled stays disabled.
\<close>

theorem smz_reconfigure_preserves_enabled:
  assumes "word_aligned base" and "power_of_two sz"
  shows "fst (smz_reconfigure base sz s) = 0 \<and>
         fst (smz_is_enabled (snd (smz_reconfigure base sz s))) = fst (smz_is_enabled s)"
  using and1_cases [of "csr s CSR_SMZ_ENABLE"]
  by (auto simp: smz_reconfigure_valid [OF assms] smz_is_enabled_def read_csr_def csr_defs)

theorem smz_reconfigure_preserves_enabled_witness:
  "fst (smz_reconfigure 0x10000 0x1000 hw_demo) = 0 \<and>
   fst (smz_is_enabled hw_demo) = 1 \<and>
   fst (smz_is_enabled (snd (smz_reconfigure 0x10000 0x1000 hw_demo))) = 1"
proof -
  have e: "fst (smz_is_enabled hw_demo) = 1"
    by (simp add: smz_is_enabled_def read_csr_def hw_demo_def csr_defs)
  show ?thesis
    using smz_reconfigure_preserves_enabled [OF word_aligned_64k power_of_two_4096, of hw_demo] e by simp
qed

text \<open>
  Claim C4. A run of smz_init that returns 0 issues, in this order and nothing else: the
  write of 0 to ENABLE, the settle wait (ten turns of the loop), the write of base to
  BASE, the write of size to SIZE, and a write of 1 to ENABLE exactly when enable is non-
  zero. So no BASE or SIZE write comes before the disable.
\<close>

theorem smz_init_write_order:
  assumes "fst (smz_init base sz enable s) = 0"
  shows "trace (snd (smz_init base sz enable s)) =
           trace s @ [CsrWrite CSR_SMZ_ENABLE 0, Settle 10, CsrWrite CSR_SMZ_BASE base,
                      CsrWrite CSR_SMZ_SIZE sz]
                   @ (if enable \<noteq> 0 then [CsrWrite CSR_SMZ_ENABLE 1] else [])"
proof -
  have "word_aligned base \<and> power_of_two sz"
  proof (rule ccontr)
    assume "\<not> (word_aligned base \<and> power_of_two sz)"
    then have "smz_init base sz enable s = (- 1, s)"
      by (intro smz_init_invalid) blast
    with assms show False by simp
  qed
  then show ?thesis by (simp add: smz_init_valid)
qed

theorem smz_init_write_order_witness:
  "fst (smz_init 0x10000 0x1000 1 hw_demo) = 0 \<and>
   trace (snd (smz_init 0x10000 0x1000 1 hw_demo)) =
     [CsrWrite CSR_SMZ_ENABLE 0, Settle 10, CsrWrite CSR_SMZ_BASE 0x10000,
      CsrWrite CSR_SMZ_SIZE 0x1000, CsrWrite CSR_SMZ_ENABLE 1]"
proof -
  have h: "fst (smz_init 0x10000 0x1000 1 hw_demo) = 0"
    by (simp add: smz_init_valid [OF word_aligned_64k power_of_two_4096])
  show ?thesis using h smz_init_write_order [OF h] by (simp add: hw_demo_def)
qed

text \<open>
  Claim C5 as stated fails: the first register side effect of smz_test is a direct write
  of BASE, where a successful smz_init on the same geometry starts by writing 0 to ENABLE;
  the two traces differ.
\<close>

theorem harness_configure_not_via_init:
  "hd (trace (run_hw (smz_test identity_engine hw_reset ram_zero junk junk)))
     = CsrWrite CSR_SMZ_BASE SECURE_ADDR \<and>
   fst (smz_init SECURE_ADDR SECURE_SIZE 1 hw_reset) = 0 \<and>
   hd (trace (snd (smz_init SECURE_ADDR SECURE_SIZE 1 hw_reset))) = CsrWrite CSR_SMZ_ENABLE 0 \<and>
   trace (run_hw (smz_test identity_engine hw_reset ram_zero junk junk))
     \<noteq> trace (snd (smz_init SECURE_ADDR SECURE_SIZE 1 hw_reset))"
  by (simp add: smz_test_hw step1_configure_hw smz_init_valid [OF secure_geometry_valid] hw_reset_def)

text \<open>
  Claim C5, as the code has it. smz_test does not call smz_init: it writes SECURE_ADDR to
  BASE, SECURE_SIZE to SIZE and 1 to ENABLE directly, in that order, and reads the three
  registers back; there is no disable, no settle wait, no validation and no path that
  aborts. The geometry it writes is one smz_init accepts, and the register values it
  leaves are those smz_init with enable = 1 leaves.
\<close>

theorem harness_configures_by_direct_writes:
  "trace (run_hw (smz_test eng s r img0 rd0)) =
     trace s @ [CsrWrite CSR_SMZ_BASE SECURE_ADDR, CsrWrite CSR_SMZ_SIZE SECURE_SIZE,
                CsrWrite CSR_SMZ_ENABLE 1, CsrRead CSR_SMZ_BASE, CsrRead CSR_SMZ_SIZE,
                CsrRead CSR_SMZ_ENABLE] \<and>
   fst (smz_init SECURE_ADDR SECURE_SIZE 1 s) = 0 \<and>
   csr (run_hw (smz_test eng s r img0 rd0)) = csr (snd (smz_init SECURE_ADDR SECURE_SIZE 1 s))"
  by (auto simp: smz_test_hw step1_configure_hw smz_init_valid [OF secure_geometry_valid]
      csr_defs fun_eq_iff)

theorem harness_configures_by_direct_writes_witness:
  "trace (run_hw (smz_test identity_engine hw_demo ram_zero junk junk)) =
     [CsrWrite CSR_SMZ_BASE SECURE_ADDR, CsrWrite CSR_SMZ_SIZE SECURE_SIZE,
      CsrWrite CSR_SMZ_ENABLE 1, CsrRead CSR_SMZ_BASE, CsrRead CSR_SMZ_SIZE,
      CsrRead CSR_SMZ_ENABLE] \<and>
   fst (smz_init SECURE_ADDR SECURE_SIZE 1 hw_demo) = 0 \<and>
   csr (run_hw (smz_test identity_engine hw_demo ram_zero junk junk)) =
     csr (snd (smz_init SECURE_ADDR SECURE_SIZE 1 hw_demo))"
  using harness_configures_by_direct_writes [of identity_engine hw_demo ram_zero junk junk] by (simp add: hw_demo_def)

text \<open>
  Claim C6 as stated fails: a misaligned base with a valid size and an aligned base with
  an invalid size give the same result, return value and state, from smz_init and from
  smz_reconfigure, so the returned value does not tell which rule was violated.
\<close>

theorem smz_errors_indistinguishable:
  "\<not> word_aligned 2 \<and> power_of_two 0x1000 \<and> word_aligned 0x10000 \<and> \<not> power_of_two 3 \<and>
   smz_init 2 0x1000 1 hw_reset = smz_init 0x10000 3 1 hw_reset \<and>
   smz_reconfigure 2 0x1000 hw_reset = smz_reconfigure 0x10000 3 hw_reset"
  by (simp add: not_word_aligned_2 power_of_two_4096 word_aligned_64k not_power_of_two_3
      smz_init_invalid smz_reconfigure_invalid)

text \<open>
  Claim C6, as the code has it. smz_init and smz_reconfigure return one value for every
  validation failure: -1 when the base is not a multiple of 4 or the size is 0 or not a
  power of two, and 0 otherwise.
\<close>

theorem smz_single_error_code:
  "fst (smz_init base sz enable s) =
     (if word_aligned base \<and> sz \<noteq> 0 \<and> power_of_two sz then 0 else - 1) \<and>
   fst (smz_reconfigure base sz s) =
     (if word_aligned base \<and> sz \<noteq> 0 \<and> power_of_two sz then 0 else - 1)"
proof (cases "word_aligned base \<and> sz \<noteq> 0 \<and> power_of_two sz")
  case True
  then show ?thesis by (simp add: smz_init_valid smz_reconfigure_valid)
next
  case False
  then have "\<not> word_aligned base \<or> sz = 0 \<or> \<not> power_of_two sz" by blast
  then have "smz_init base sz enable s = (- 1, s)" and "smz_reconfigure base sz s = (- 1, s)"
    by (rule smz_init_invalid, rule smz_reconfigure_invalid)
  with False show ?thesis by simp
qed

theorem smz_single_error_code_witness:
  "fst (smz_init 2 0x1000 1 hw_demo) = - 1 \<and> fst (smz_reconfigure 2 0x1000 hw_demo) = - 1 \<and>
   fst (smz_init 0x10000 3 1 hw_demo) = - 1 \<and> fst (smz_reconfigure 0x10000 3 hw_demo) = - 1 \<and>
   fst (smz_init 0x10000 0x1000 0 hw_demo) = 0 \<and> fst (smz_reconfigure 0x10000 0x1000 hw_demo) = 0"
  using smz_single_error_code [of 2 "0x1000" 1 hw_demo] smz_single_error_code [of "0x10000" 3 1 hw_demo] smz_single_error_code [of "0x10000" "0x1000" 0 hw_demo]
  by (simp add: not_word_aligned_2 power_of_two_4096 word_aligned_64k not_power_of_two_3)

text \<open>
  Claim C7. After the generation loop the 196-word array holds, at every index i below
  196, the word 0xAABB0000 | ((i & 0xFF) << 8) | (i & 0xFF), whatever the array held
  before; generating again from any other starting contents gives the same words.
\<close>

theorem test_pattern_deterministic:
  assumes "length img0 = 196" and "length img1 = 196"
  shows "length (gen_loop 0 img0) = 196 \<and>
         (\<forall>i<196. gen_loop 0 img0 ! i =
            ((0xAABB0000 OR push_bit 8 (of_nat i AND 0xFF)) OR (of_nat i AND 0xFF))) \<and>
         gen_loop 0 img1 = gen_loop 0 img0"
  by (simp add: gen_loop_0 assms pattern_word_eq or.assoc)

theorem test_pattern_deterministic_witness:
  "length (gen_loop 0 junk) = 196 \<and> gen_loop 0 junk ! 5 = 0xAABB0505 \<and>
   gen_loop 0 (junk[3 := 7]) = gen_loop 0 junk"
proof -
  have a: "length junk = 196" by (rule length_junk)
  have b: "length (junk[3 := 7]) = 196" by (simp add: length_junk)
  note t = test_pattern_deterministic [OF a b]
  from t have "gen_loop 0 junk ! 5 = ((0xAABB0000 OR push_bit 8 (of_nat 5 AND 0xFF)) OR (of_nat 5 AND 0xFF))"
    by (elim conjE allE [of _ 5]) simp
  then have "gen_loop 0 junk ! 5 = 0xAABB0505" by simp
  with t show ?thesis by simp
qed



text \<open>
  Claim C9. If the words read back differ from the pattern at index k and nowhere else,
  smz_test ends with matches = 196 - 1 and first_mismatch = k, and prints the FAIL report
  with one mismatch, first mismatch at word k, the pattern word at k as expected value and
  the word read back at k as actual value.
\<close>

theorem single_corruption_reported:
  assumes "length img0 = 196" and "length rd0 = 196" and "k < 196"
    and "run_read_image (smz_test eng s r img0 rd0) ! k \<noteq> run_test_image (smz_test eng s r img0 rd0) ! k"
    and "\<forall>i<196. i \<noteq> k \<longrightarrow>
           run_read_image (smz_test eng s r img0 rd0) ! i = run_test_image (smz_test eng s r img0 rd0) ! i"
  shows "run_matches (smz_test eng s r img0 rd0) = 196 - 1 \<and>
         run_first_mismatch (smz_test eng s r img0 rd0) = int k \<and>
         (\<exists>pre post. run_out (smz_test eng s r img0 rd0) =
            pre @ [Str ''  Matching words: '', Dec 195, Str '' / 196\<newline>\<newline>'',
                   Str msg_fail, Str ''  Mismatches: '', Dec 1, Str ''\<newline>'',
                   Str ''  First mismatch at word '', Dec (int k), Str '':\<newline>'',
                   Str ''    Expected: 0x'', Hex (pattern_word k) 8, Str ''\<newline>'',
                   Str ''    Got: 0x'', Hex (run_read_image (smz_test eng s r img0 rd0) ! k) 8,
                   Str ''\<newline>''] @ post)"
proof -
  let ?R = "smz_test eng s r img0 rd0"
  have "cmp_loop 0 (run_read_image ?R) (run_test_image ?R) 0 (- 1) = (0 + int (196 - 0) - 1, int k)"
    using assms(3,4,5) by (intro cmp_loop_one_mismatch) simp_all
  with smz_test_compare [of eng s r img0 rd0]
  have m: "run_matches ?R = 195" and f: "run_first_mismatch ?R = int k" by simp_all
  have p: "run_test_image ?R ! k = pattern_word k"
    using assms(3) by (simp add: smz_test_images [OF assms(1,2)])
  obtain pre post where "run_out ?R = pre @ report (run_matches ?R) (run_first_mismatch ?R)
      (run_test_image ?R) (run_read_image ?R) @ post"
    using smz_test_out [of eng s r img0 rd0] by blast
  then have "run_out ?R = pre @ [Str ''  Matching words: '', Dec 195, Str '' / 196\<newline>\<newline>'',
                   Str msg_fail, Str ''  Mismatches: '', Dec 1, Str ''\<newline>'',
                   Str ''  First mismatch at word '', Dec (int k), Str '':\<newline>'',
                   Str ''    Expected: 0x'', Hex (pattern_word k) 8, Str ''\<newline>'',
                   Str ''    Got: 0x'', Hex (run_read_image ?R ! k) 8,
                   Str ''\<newline>''] @ post"
    by (simp add: m f p report_def)
  then have "\<exists>pre post. run_out ?R = pre @ [Str ''  Matching words: '', Dec 195, Str '' / 196\<newline>\<newline>'',
                   Str msg_fail, Str ''  Mismatches: '', Dec 1, Str ''\<newline>'',
                   Str ''  First mismatch at word '', Dec (int k), Str '':\<newline>'',
                   Str ''    Expected: 0x'', Hex (pattern_word k) 8, Str ''\<newline>'',
                   Str ''    Got: 0x'', Hex (run_read_image ?R ! k) 8,
                   Str ''\<newline>''] @ post"
    by blast
  with m f show ?thesis by simp
qed

theorem single_corruption_reported_witness:
  "run_matches (smz_test flip_engine hw_reset ram_zero junk junk) = 195 \<and>
   run_first_mismatch (smz_test flip_engine hw_reset ram_zero junk junk) = 5 \<and>
   (\<exists>pre post. run_out (smz_test flip_engine hw_reset ram_zero junk junk) =
            pre @ [Str ''  Matching words: '', Dec 195, Str '' / 196\<newline>\<newline>'',
                   Str msg_fail, Str ''  Mismatches: '', Dec 1, Str ''\<newline>'',
                   Str ''  First mismatch at word '', Dec 5, Str '':\<newline>'',
                   Str ''    Expected: 0x'', Hex 0xAABB0505 8, Str ''\<newline>'',
                   Str ''    Got: 0x'', Hex 0xAABB0504 8,
                   Str ''\<newline>''] @ post)"
proof -
  let ?R = "smz_test flip_engine hw_reset ram_zero junk junk"
  have k: "(5::nat) < 196" by simp
  have p5: "pattern_word 5 = 0xAABB0505" by (simp add: pattern_word_def)
  have r5: "run_read_image ?R ! 5 = 0xAABB0504" by (simp add: flip_read_image p5)
  have t5: "run_test_image ?R ! 5 = 0xAABB0505"
    by (simp add: smz_test_images [OF length_junk length_junk] p5)
  have a: "run_read_image ?R ! 5 \<noteq> run_test_image ?R ! 5" by (simp add: r5 t5)
  have b: "\<forall>i<196. i \<noteq> 5 \<longrightarrow> run_read_image ?R ! i = run_test_image ?R ! i"
    by (simp add: flip_read_image smz_test_images(1) [OF length_junk length_junk])
  show ?thesis
    using single_corruption_reported [OF length_junk length_junk k a b] by (simp add: r5 p5)
qed

text \<open>
  Claim C10. For every choice of null and non-null pointers smz_get_config completes
  without a store through NULL; it leaves the registers as they are, leaves every cell no
  non-null pointer names untouched, and stores the ENABLE register masked to its low bit
  through enable, the SIZE register through size and the BASE register through base (where
  two pointers name one cell, the later store stands).
\<close>

theorem smz_get_config_null_safe:
  "\<exists>s' m'. smz_get_config base sz enable s m = Inr (s', m') \<and>
     csr s' = csr s \<and>
     (\<forall>a. base \<noteq> Ptr a \<and> sz \<noteq> Ptr a \<and> enable \<noteq> Ptr a \<longrightarrow> m' a = m a) \<and>
     (\<forall>a. enable = Ptr a \<longrightarrow> m' a = csr s CSR_SMZ_ENABLE AND 1) \<and>
     (\<forall>a. sz = Ptr a \<and> enable \<noteq> Ptr a \<longrightarrow> m' a = csr s CSR_SMZ_SIZE) \<and>
     (\<forall>a. base = Ptr a \<and> sz \<noteq> Ptr a \<and> enable \<noteq> Ptr a \<longrightarrow> m' a = csr s CSR_SMZ_BASE)"
  by (cases base; cases sz; cases enable)
     (auto simp: smz_get_config_def store_ptr_def smz_defs)

theorem smz_get_config_null_safe_witness:
  "\<exists>s' m'. smz_get_config NULL (Ptr 104) (Ptr 108) hw_demo dmem_zero = Inr (s', m') \<and>
     csr s' = csr hw_demo \<and> m' 100 = 0 \<and> m' 104 = 0x400 \<and> m' 108 = 1"
proof -
  obtain s' m' where r: "smz_get_config NULL (Ptr 104) (Ptr 108) hw_demo dmem_zero = Inr (s', m')"
    and c: "csr s' = csr hw_demo"
    and u: "\<forall>a. NULL \<noteq> Ptr a \<and> Ptr 104 \<noteq> Ptr a \<and> Ptr 108 \<noteq> Ptr a \<longrightarrow> m' a = dmem_zero a"
    and e: "\<forall>a. Ptr 108 = Ptr a \<longrightarrow> m' a = csr hw_demo CSR_SMZ_ENABLE AND 1"
    and z: "\<forall>a. Ptr 104 = Ptr a \<and> Ptr 108 \<noteq> Ptr a \<longrightarrow> m' a = csr hw_demo CSR_SMZ_SIZE"
    using smz_get_config_null_safe [of NULL "Ptr 104" "Ptr 108" hw_demo dmem_zero] by blast
  from u have "m' 100 = 0" by (simp add: dmem_zero_def)
  moreover from e have "m' 108 = 1" by (simp add: hw_demo_def csr_defs)
  moreover from z have "m' 104 = 0x400" by (simp add: hw_demo_def csr_defs)
  ultimately show ?thesis using r c by simp
qed

end
